theory Spec2Isabelle
  imports Main "HOL-Library.Sublist"
begin

section \<open>Lisp objects\<close>

text \<open>
  The undo log of a buffer is an ordinary Lisp list, newest entry first, built from cons
  cells; undo.c inspects it with \<^verbatim>\<open>CONSP\<close>, \<^verbatim>\<open>NILP\<close>, \<^verbatim>\<open>INTEGERP\<close>, \<^verbatim>\<open>STRINGP\<close>,
  \<^verbatim>\<open>XCAR\<close> and \<^verbatim>\<open>XCDR\<close>. A \<^verbatim>\<open>Lisp_Object\<close> is modelled by the datatype below:
  \<open>Qnil\<close> and \<open>Qt\<close> are the symbols \<^verbatim>\<open>nil\<close> and \<^verbatim>\<open>t\<close>, \<open>Symbol\<close> is any other symbol,
  \<open>Fixnum\<close> an integer, \<open>Lstring\<close> a string, \<open>Marker\<close> a marker object (named by a
  number) and \<open>Fcons\<close> a cons cell. The entries of a log are
  \<^item> \<open>Qnil\<close>: a boundary,
  \<^item> \<open>Fixnum p\<close>: a cursor position,
  \<^item> \<open>Fcons (Fixnum b) (Fixnum e)\<close>: an insertion of the characters from \<open>b\<close> to \<open>e\<close>,
  \<^item> \<open>Fcons (Lstring s) (Fixnum p)\<close>: a deletion of \<open>s\<close> at \<open>\<bar>p\<bar>\<close>,
  \<^item> \<open>Fcons (Marker m) (Fixnum d)\<close>: a marker adjustment,
  \<^item> \<open>Fcons Qt time\<close>: the first change of an unmodified buffer,
  \<^item> \<open>Fcons Qnil (Fcons prop (Fcons val (Fcons (Fixnum b) (Fixnum e))))\<close>: a property change.
  A buffer whose log is \<open>Qt\<close> records nothing.
\<close>

datatype lisp =
    Qnil
  | Qt
  | Fixnum int
  | Lstring string
  | Symbol string
  | Marker nat
  | Fcons lisp lisp

fun CONSP :: "lisp \<Rightarrow> bool" where
  "CONSP (Fcons a d) = True"
| "CONSP x = False"

fun NILP :: "lisp \<Rightarrow> bool" where
  "NILP Qnil = True"
| "NILP x = False"

fun INTEGERP :: "lisp \<Rightarrow> bool" where
  "INTEGERP (Fixnum i) = True"
| "INTEGERP x = False"

fun STRINGP :: "lisp \<Rightarrow> bool" where
  "STRINGP (Lstring s) = True"
| "STRINGP x = False"

text \<open>
  \<^verbatim>\<open>XCAR\<close>, \<^verbatim>\<open>XCDR\<close>, \<^verbatim>\<open>XINT\<close> and \<^verbatim>\<open>SCHARS\<close> are applied by undo.c only after the
  matching type test; the last equation of each function below is never reached by the
  model and only makes the function total.
\<close>

fun XCAR :: "lisp \<Rightarrow> lisp" where
  "XCAR (Fcons a d) = a"
| "XCAR x = Qnil"

fun XCDR :: "lisp \<Rightarrow> lisp" where
  "XCDR (Fcons a d) = d"
| "XCDR x = Qnil"

fun XINT :: "lisp \<Rightarrow> int" where
  "XINT (Fixnum i) = i"
| "XINT x = 0"

fun SCHARS :: "lisp \<Rightarrow> int" where
  "SCHARS (Lstring s) = int (length s)"
| "SCHARS x = 0"

text \<open>
  The sizes \<^verbatim>\<open>sizeof (struct Lisp_Cons)\<close> and \<^verbatim>\<open>sizeof (struct Lisp_String)\<close> come from
  lisp.h, which is not part of the sources at hand; they are parameters of the model.
  On an LP64 build they are 16 and 32.
\<close>

record abi =
  sizeof_Lisp_Cons :: int
  sizeof_Lisp_String :: int

definition lp64 :: abi where
  "lp64 = \<lparr>sizeof_Lisp_Cons = 16, sizeof_Lisp_String = 32\<rparr>"


section \<open>Truncation at garbage collection: \<^verbatim>\<open>truncate_undo_list\<close>\<close>

text \<open>
  The limits are the variables \<^verbatim>\<open>undo-limit\<close>, \<^verbatim>\<open>undo-strong-limit\<close>,
  \<^verbatim>\<open>undo-outer-limit\<close> and \<^verbatim>\<open>undo-outer-limit-function\<close>. The last one is a Lisp
  function or \<^verbatim>\<open>nil\<close>: \<open>None\<close> stands for \<^verbatim>\<open>nil\<close>, and a function is given the size and
  the log of the buffer; it answers \<open>Some l\<close> when it returns non-\<^verbatim>\<open>nil\<close> and has left
  \<open>l\<close> as the log of the buffer ("the function is responsible for making any desired
  changes in buffer-undo-list"), and \<open>None\<close> when it returns \<^verbatim>\<open>nil\<close>, in which case the
  model takes the log to be as it was.
\<close>

record limits =
  undo_limit :: int
  undo_strong_limit :: int
  Vundo_outer_limit :: lisp
  Vundo_outer_limit_function :: "(int \<Rightarrow> lisp \<Rightarrow> lisp option) option"

text \<open>
  "Add in the space occupied by this element and its chain link": the statements that
  both loops of \<^verbatim>\<open>truncate_undo_list\<close> run for the element \<open>elt\<close> of one cell.
\<close>

definition element_space :: "abi \<Rightarrow> lisp \<Rightarrow> int" where
  "element_space a elt =
     sizeof_Lisp_Cons a +
     (if CONSP elt
      then sizeof_Lisp_Cons a +
           (if STRINGP (XCAR elt) then sizeof_Lisp_String a - 1 + SCHARS (XCAR elt) else 0)
      else 0)"

text \<open>
  The C code walks the list with the pointers \<^verbatim>\<open>prev\<close>, \<^verbatim>\<open>next\<close> and \<^verbatim>\<open>last_boundary\<close>
  and cuts it with \<^verbatim>\<open>XSETCDR (last_boundary, Qnil)\<close>. In the model \<open>next\<close> is the rest
  of the list itself, and a pointer to a cell of the list is the number of that cell
  (the head cell is cell 0); \<open>None\<close> is the pointer \<^verbatim>\<open>Qnil\<close>. The argument \<open>i\<close> of the
  loops is the number of the cell \<open>next\<close>. \<open>setcdr_nil k\<close> is \<^verbatim>\<open>XSETCDR\<close> of cell \<open>k\<close> to
  \<^verbatim>\<open>Qnil\<close>; its last equation is for a cell that the list does not have, which
  \<^verbatim>\<open>last_boundary\<close> never is.
\<close>

fun setcdr_nil :: "nat \<Rightarrow> lisp \<Rightarrow> lisp" where
  "setcdr_nil 0 (Fcons a d) = Fcons a Qnil"
| "setcdr_nil (Suc k) (Fcons a d) = Fcons a (setcdr_nil k d)"
| "setcdr_nil k x = x"

text \<open>The first loop: "skip to the undo boundary" (lines 399 to 417).\<close>

fun skip_to_boundary ::
  "abi \<Rightarrow> int \<Rightarrow> nat option \<Rightarrow> nat \<Rightarrow> lisp \<Rightarrow> int \<times> nat option \<times> nat \<times> lisp" where
  "skip_to_boundary a size_so_far prev i (Fcons elt rest) =
     (if \<not> NILP elt
      then skip_to_boundary a (size_so_far + element_space a elt) (Some i) (Suc i) rest
      else (size_so_far, prev, i, Fcons elt rest))"
| "skip_to_boundary a size_so_far prev i nxt = (size_so_far, prev, i, nxt)"

text \<open>
  The second loop: "keep additional undo data, if it fits in the limits" (lines 442 to
  473). It returns the final \<^verbatim>\<open>next\<close> and \<^verbatim>\<open>last_boundary\<close>.
\<close>

fun keep_additional ::
  "limits \<Rightarrow> abi \<Rightarrow> int \<Rightarrow> nat option \<Rightarrow> nat option \<Rightarrow> nat \<Rightarrow> lisp \<Rightarrow> lisp \<times> nat option" where
  "keep_additional c a size_so_far prev last_boundary i (Fcons elt rest) =
     (if NILP elt
      then (if size_so_far > undo_strong_limit c then (Fcons elt rest, last_boundary)
            else if size_so_far > undo_limit c then (Fcons elt rest, prev)
            else keep_additional c a (size_so_far + element_space a elt) (Some i) prev (Suc i) rest)
      else keep_additional c a (size_so_far + element_space a elt) (Some i) last_boundary (Suc i) rest)"
| "keep_additional c a size_so_far prev last_boundary i nxt = (nxt, last_boundary)"

text \<open>
  The start of \<^verbatim>\<open>truncate_undo_list\<close> (lines 376 to 417): "if the first element is an
  undo boundary, skip past it", then the first loop. The result is \<^verbatim>\<open>size_so_far\<close>,
  \<^verbatim>\<open>prev\<close>, the number of the cell \<^verbatim>\<open>next\<close>, and \<^verbatim>\<open>next\<close>.
\<close>

definition scan_most_recent_command ::
  "abi \<Rightarrow> lisp \<Rightarrow> int \<times> nat option \<times> nat \<times> lisp" where
  "scan_most_recent_command a list =
     (if CONSP list \<and> NILP (XCAR list)
      then skip_to_boundary a (sizeof_Lisp_Cons a) (Some 0) (Suc 0) (XCDR list)
      else skip_to_boundary a 0 None 0 list)"

text \<open>
  The call of \<^verbatim>\<open>undo-outer-limit-function\<close> (lines 421 to 436): the value \<^verbatim>\<open>tem\<close> when
  the function is called and returns non-\<^verbatim>\<open>nil\<close>, with the log it has left.
\<close>

definition outer_limit_call :: "limits \<Rightarrow> int \<Rightarrow> lisp \<Rightarrow> lisp option" where
  "outer_limit_call c size_so_far list =
     (if INTEGERP (Vundo_outer_limit c) \<and> size_so_far > XINT (Vundo_outer_limit c)
      then (case Vundo_outer_limit_function c of
              None \<Rightarrow> None
            | Some f \<Rightarrow> f size_so_far list)
      else None)"

text \<open>
  What \<^verbatim>\<open>truncate_undo_list\<close> decides: the overflow function took over and left a log,
  the list stays as it is, the list is cut behind a cell, or the log is cleared.
\<close>

datatype outcome = Handled lisp | Unchanged | Truncated nat | Cleared

definition truncate_outcome :: "abi \<Rightarrow> limits \<Rightarrow> lisp \<Rightarrow> outcome" where
  "truncate_outcome a c list =
     (case scan_most_recent_command a list of
        (size1, prev1, i1, next1) \<Rightarrow>
          (case outer_limit_call c size1 list of
             Some l \<Rightarrow> Handled l
           | None \<Rightarrow>
               (let last_boundary = (if CONSP next1 then prev1 else None)
                in case keep_additional c a size1 prev1 last_boundary i1 next1 of
                     (next2, last_boundary2) \<Rightarrow>
                       if NILP next2 then Unchanged
                       else (case last_boundary2 of
                               Some k \<Rightarrow> Truncated k
                             | None \<Rightarrow> Cleared))))"

text \<open>
  The log of the buffer after \<^verbatim>\<open>truncate_undo_list\<close>. Inhibiting garbage collection and
  making the buffer current for the time of the call leave the log alone and are not
  modelled.
\<close>

definition truncate_undo_list :: "abi \<Rightarrow> limits \<Rightarrow> lisp \<Rightarrow> lisp" where
  "truncate_undo_list a c list =
     (case truncate_outcome a c list of
        Handled l \<Rightarrow> l
      | Unchanged \<Rightarrow> list
      | Truncated k \<Rightarrow> setcdr_nil k list
      | Cleared \<Rightarrow> Qnil)"

text \<open>The overflow function was called and reported that it handled the overflow.\<close>

definition overflow_handled :: "abi \<Rightarrow> limits \<Rightarrow> lisp \<Rightarrow> bool" where
  "overflow_handled a c list =
     (outer_limit_call c (fst (scan_most_recent_command a list)) list \<noteq> None)"

text \<open>The entries of a log, newest first, as a list; an improper tail is left out.\<close>

fun elements :: "lisp \<Rightarrow> lisp list" where
  "elements (Fcons a d) = a # elements d"
| "elements x = []"

fun final_tail :: "lisp \<Rightarrow> lisp" where
  "final_tail (Fcons a d) = final_tail d"
| "final_tail x = x"

fun of_list :: "lisp list \<Rightarrow> lisp" where
  "of_list [] = Qnil"
| "of_list (x # xs) = Fcons x (of_list xs)"

text \<open>
  The most recent command of a log, in the words of the specification: the records
  between the head, past an optional leading boundary, and the first boundary after them.
\<close>

definition skip_leading_boundary :: "lisp list \<Rightarrow> lisp list" where
  "skip_leading_boundary xs = (case xs of [] \<Rightarrow> [] | x # r \<Rightarrow> if x = Qnil then r else xs)"

definition most_recent_command :: "lisp list \<Rightarrow> lisp list" where
  "most_recent_command xs = takeWhile (\<lambda>e. e \<noteq> Qnil) (skip_leading_boundary xs)"

definition head_part :: "lisp list \<Rightarrow> lisp list" where
  "head_part xs =
     (case xs of [] \<Rightarrow> [] | x # r \<Rightarrow> if x = Qnil then [Qnil] else []) @ most_recent_command xs"

text \<open>
  The retention scan of the specification (section 4.6, steps 4 to 7), over the entries
  of a log that follow the most recent command. \<open>cost\<close> is the cost accumulated so far,
  \<open>cutp\<close> the candidate cut point (the number of entries that a cut keeps) and \<open>seen\<close>
  the number of entries already passed. The result is \<open>None\<close> when the scan reaches the
  end of the list (no truncation) and the cut point when it stops. With \<open>keep_boundary\<close>
  the candidate moves to just after the boundary that is crossed, as the specification
  words it (the boundary is kept); without it the candidate moves to just before that
  boundary (the boundary goes with what is dropped).
\<close>

fun retention_scan ::
  "bool \<Rightarrow> limits \<Rightarrow> abi \<Rightarrow> int \<Rightarrow> nat \<Rightarrow> nat \<Rightarrow> lisp list \<Rightarrow> nat option" where
  "retention_scan keep_boundary c a cost cutp seen [] = None"
| "retention_scan keep_boundary c a cost cutp seen (e # es) =
     (if e = Qnil
      then (if cost > undo_strong_limit c then Some cutp
            else (let cutp' = (if keep_boundary then Suc seen else seen)
                  in if cost > undo_limit c then Some cutp'
                     else retention_scan keep_boundary c a (cost + element_space a e) cutp'
                            (Suc seen) es))
      else retention_scan keep_boundary c a (cost + element_space a e) cutp (Suc seen) es)"

definition retained :: "bool \<Rightarrow> limits \<Rightarrow> abi \<Rightarrow> lisp list \<Rightarrow> lisp list" where
  "retained keep_boundary c a xs =
     (let n = length (head_part xs)
      in case retention_scan keep_boundary c a (sum_list (map (element_space a) (head_part xs)))
                n n (drop n xs) of
           None \<Rightarrow> xs
         | Some cutp \<Rightarrow> take cutp xs)"

section \<open>Buffers and the state of the recorder\<close>

text \<open>
  A marker of the chain \<^verbatim>\<open>BUF_MARKERS\<close>: the marker object it is, its \<^verbatim>\<open>charpos\<close> and
  its \<^verbatim>\<open>insertion_type\<close>.
\<close>

record marker =
  marker_object :: nat
  charpos :: int
  insertion_type :: bool

text \<open>
  The fields of \<^verbatim>\<open>struct buffer\<close> that undo.c reads or writes: the log, \<^verbatim>\<open>PT\<close>,
  \<^verbatim>\<open>MODIFF\<close>, \<^verbatim>\<open>SAVE_MODIFF\<close>, the marker chain, the base buffer of an indirect buffer,
  the modification time of the visited file and the buffer-local variable
  \<^verbatim>\<open>undo-buffer-undoably-changed\<close>. Buffers are named by numbers.
\<close>

record buffer =
  undo_list :: lisp
  pt :: int
  modiff :: int
  save_modiff :: int
  buf_markers :: "marker list"
  base_buffer :: "nat option"
  modtime :: lisp
  undo_buffer_undoably_changed :: lisp

text \<open>
  The state: the buffers, \<^verbatim>\<open>current_buffer\<close>, the static variables of undo.c and the
  variable \<^verbatim>\<open>undo-inhibit-record-point\<close>. The functions of
  \<^verbatim>\<open>undo-first-undoable-change-hook\<close> are Lisp code from outside; the hook is \<^verbatim>\<open>nil\<close>
  by default, and the model only notes each run of it, with the buffer that was current.
\<close>

record editor =
  buffers :: "nat \<Rightarrow> buffer"
  current_buffer :: nat
  last_boundary_buffer :: "nat option"
  last_boundary_position :: int
  pending_boundary :: lisp
  undo_inhibit_record_point :: bool
  hook_runs :: "nat list"

definition BVAR_undo_list :: "editor \<Rightarrow> lisp" where
  "BVAR_undo_list e = undo_list (buffers e (current_buffer e))"

definition bset_undo_list :: "nat \<Rightarrow> lisp \<Rightarrow> editor \<Rightarrow> editor" where
  "bset_undo_list b val e = e\<lparr>buffers := (buffers e)(b := (buffers e b)\<lparr>undo_list := val\<rparr>)\<rparr>"

definition PT :: "editor \<Rightarrow> int" where
  "PT e = pt (buffers e (current_buffer e))"

definition MODIFF :: "editor \<Rightarrow> int" where
  "MODIFF e = modiff (buffers e (current_buffer e))"

definition SAVE_MODIFF :: "editor \<Rightarrow> int" where
  "SAVE_MODIFF e = save_modiff (buffers e (current_buffer e))"

text \<open>
  Modelled from the spec: \<^verbatim>\<open>Fvisited_file_modtime\<close> is defined in fileio.c, which is not
  among the sources; the specification has it yield "the buffer's externally-visited
  file modification time", here the \<open>modtime\<close> of the current buffer.
\<close>

definition Fvisited_file_modtime :: "editor \<Rightarrow> lisp" where
  "Fvisited_file_modtime e = modtime (buffers e (current_buffer e))"

text \<open>"Allocate a cons cell to be the undo boundary after this command."\<close>

definition allocate_pending_boundary :: "editor \<Rightarrow> editor" where
  "allocate_pending_boundary e =
     (if NILP (pending_boundary e) then e\<lparr>pending_boundary := Fcons Qnil Qnil\<rparr> else e)"

text \<open>
  The test of \<^verbatim>\<open>Vundo_buffer_undoably_changed\<close> with \<^verbatim>\<open>Fset\<close> and \<^verbatim>\<open>safe_run_hooks\<close>, as
  \<^verbatim>\<open>record_point\<close>, \<^verbatim>\<open>record_marker_adjustments\<close> and \<^verbatim>\<open>record_property_change\<close> have it.
\<close>

definition first_undoable_change :: "editor \<Rightarrow> editor" where
  "first_undoable_change e =
     (if NILP (undo_buffer_undoably_changed (buffers e (current_buffer e)))
      then e\<lparr>buffers := (buffers e)(current_buffer e :=
                (buffers e (current_buffer e))\<lparr>undo_buffer_undoably_changed := Qt\<rparr>),
              hook_runs := hook_runs e @ [current_buffer e]\<rparr>
      else e)"

section \<open>Recording\<close>

text \<open>
  \<^verbatim>\<open>record_first_change\<close>. The local variable \<^verbatim>\<open>base_buffer\<close> is computed as in the
  source; nothing after it reads it.
\<close>

definition record_first_change :: "editor \<Rightarrow> editor" where
  "record_first_change e =
     (let base_buffer' = current_buffer e
      in if BVAR_undo_list e = Qt then e
         else (let base_buffer' = (case base_buffer (buffers e base_buffer') of
                                     Some b \<Rightarrow> b
                                   | None \<Rightarrow> base_buffer')
               in bset_undo_list (current_buffer e)
                    (Fcons (Fcons Qt (Fvisited_file_modtime e)) (BVAR_undo_list e)) e))"

definition record_point :: "int \<Rightarrow> editor \<Rightarrow> editor" where
  "record_point p e =
     (if undo_inhibit_record_point e then e
      else (let e1 = allocate_pending_boundary e;
                e2 = first_undoable_change e1;
                at_boundary = (\<not> CONSP (BVAR_undo_list e2) \<or> NILP (XCAR (BVAR_undo_list e2)));
                e3 = (if MODIFF e2 \<le> SAVE_MODIFF e2 then record_first_change e2 else e2)
            in if at_boundary \<and> Some (current_buffer e3) = last_boundary_buffer e3
                  \<and> last_boundary_position e3 \<noteq> p
               then bset_undo_list (current_buffer e3)
                      (Fcons (Fixnum (last_boundary_position e3)) (BVAR_undo_list e3)) e3
               else e3))"

text \<open>
  \<^verbatim>\<open>record_insert\<close>. \<^verbatim>\<open>XSETCDR (elt, make_number (beg + length))\<close> overwrites the cdr of
  the head entry in place; in the model the log gets the rewritten entry as its head.
\<close>

definition record_insert :: "int \<Rightarrow> int \<Rightarrow> editor \<Rightarrow> editor" where
  "record_insert beg len e =
     (if BVAR_undo_list e = Qt then e
      else (let e1 = record_point beg e;
                ul = BVAR_undo_list e1
            in if CONSP ul \<and> CONSP (XCAR ul) \<and> INTEGERP (XCAR (XCAR ul))
                  \<and> INTEGERP (XCDR (XCAR ul)) \<and> XINT (XCDR (XCAR ul)) = beg
               then bset_undo_list (current_buffer e1)
                      (Fcons (Fcons (XCAR (XCAR ul)) (Fixnum (beg + len))) (XCDR ul)) e1
               else bset_undo_list (current_buffer e1)
                      (Fcons (Fcons (Fixnum beg) (Fixnum (beg + len))) ul) e1))"

text \<open>
  The loop of \<^verbatim>\<open>record_marker_adjustments\<close> over the marker chain; \<open>ul\<close> is the log of
  the current buffer. (\<^verbatim>\<open>eassert (charpos <= Z)\<close> is an assertion and not modelled.)
\<close>

fun marker_adjustments :: "int \<Rightarrow> int \<Rightarrow> marker list \<Rightarrow> lisp \<Rightarrow> lisp" where
  "marker_adjustments from to [] ul = ul"
| "marker_adjustments from to (m # ms) ul =
     (if from \<le> charpos m \<and> charpos m \<le> to
      then (let adjustment = (if insertion_type m then to else from) - charpos m
            in if adjustment \<noteq> 0
               then marker_adjustments from to ms
                      (Fcons (Fcons (Marker (marker_object m)) (Fixnum adjustment)) ul)
               else marker_adjustments from to ms ul)
      else marker_adjustments from to ms ul)"

definition record_marker_adjustments :: "int \<Rightarrow> int \<Rightarrow> editor \<Rightarrow> editor" where
  "record_marker_adjustments from to e =
     (let e1 = allocate_pending_boundary e;
          e2 = first_undoable_change e1
      in bset_undo_list (current_buffer e2)
           (marker_adjustments from to (buf_markers (buffers e2 (current_buffer e2)))
              (BVAR_undo_list e2)) e2)"

text \<open>\<^verbatim>\<open>record_delete\<close>; \<open>string\<close> is the text of the Lisp string that is deleted.\<close>

definition record_delete :: "int \<Rightarrow> string \<Rightarrow> bool \<Rightarrow> editor \<Rightarrow> editor" where
  "record_delete beg string record_markers e =
     (if BVAR_undo_list e = Qt then e
      else (let at_end = (PT e = beg + SCHARS (Lstring string));
                sbeg = (if at_end then Fixnum (- beg) else Fixnum beg);
                e1 = (if at_end then record_point (PT e) e else record_point beg e);
                e2 = (if record_markers
                      then record_marker_adjustments beg (beg + SCHARS (Lstring string)) e1
                      else e1)
            in bset_undo_list (current_buffer e2)
                 (Fcons (Fcons (Lstring string) sbeg) (BVAR_undo_list e2)) e2))"

section \<open>The size of the log: \<^verbatim>\<open>undo-size\<close>\<close>

text \<open>
  The loop of \<^verbatim>\<open>Fundo_size\<close> (lines 325 to 349); \<open>num\<close>, \<open>size_so_far\<close> and
  \<open>boundary_so_far\<close> are the local variables. The sizes are those of memory that is
  allocated, far from the end of \<^verbatim>\<open>EMACS_INT\<close>, and are integers here.
\<close>

fun undo_size_loop :: "abi \<Rightarrow> int \<Rightarrow> int \<Rightarrow> int \<Rightarrow> lisp \<Rightarrow> int" where
  "undo_size_loop a num size_so_far boundary_so_far (Fcons elt rest) =
     (let size1 = size_so_far + sizeof_Lisp_Cons a
      in if CONSP elt
         then (let boundary1 = (if XCAR elt = Qnil then boundary_so_far + 1 else boundary_so_far)
               in if XCAR elt = Qnil \<and> boundary1 \<ge> num then size1
                  else undo_size_loop a num
                         (if STRINGP (XCAR elt)
                          then size1 + (sizeof_Lisp_String a - 1 + SCHARS (XCAR elt))
                          else size1)
                         boundary1 rest)
         else undo_size_loop a num size1 boundary_so_far rest)"
| "undo_size_loop a num size_so_far boundary_so_far nxt = size_so_far"

datatype error = Wrong_type_argument lisp

text \<open>
  \<^verbatim>\<open>Fundo_size\<close>. The source declares \<^verbatim>\<open>size_so_far\<close>, \<^verbatim>\<open>boundary_so_far\<close> and \<^verbatim>\<open>num\<close>
  without a value, and gives \<^verbatim>\<open>num\<close> one only under \<^verbatim>\<open>if (n)\<close>; what the three hold
  before is a parameter of the model (\<open>size0\<close>, \<open>boundary0\<close>, \<open>num0\<close>). The argument
  \<open>n\<close> is \<^verbatim>\<open>Qnil\<close> when the caller leaves it out, and \<^verbatim>\<open>Qnil\<close> is the zero word, so that
  \<^verbatim>\<open>if (n)\<close> asks whether \<open>n\<close> is not \<^verbatim>\<open>Qnil\<close>. \<^verbatim>\<open>CHECK_NUMBER\<close> signals
  \<^verbatim>\<open>wrong-type-argument\<close> for an \<open>n\<close> that is not an integer.
\<close>

definition Fundo_size :: "abi \<Rightarrow> int \<Rightarrow> int \<Rightarrow> int \<Rightarrow> lisp \<Rightarrow> editor \<Rightarrow> error + lisp" where
  "Fundo_size a size0 boundary0 num0 n e =
     (if BVAR_undo_list e = Qt then Inr Qnil
      else if n \<noteq> Qnil \<and> \<not> INTEGERP n then Inl (Wrong_type_argument n)
      else (let num = (if n \<noteq> Qnil then XINT n else num0)
            in Inr (Fixnum (undo_size_loop a num size0 boundary0 (BVAR_undo_list e)))))"

text \<open>
  The cost of a whole log as \<^verbatim>\<open>Fundo_size\<close> charges it, entry by entry with no stop:
  one cons cell for each entry of the list, and for an entry that holds a string the
  string as well.
\<close>

fun whole_list_size :: "abi \<Rightarrow> lisp \<Rightarrow> int" where
  "whole_list_size a (Fcons elt rest) =
     sizeof_Lisp_Cons a +
     (if CONSP elt \<and> STRINGP (XCAR elt)
      then sizeof_Lisp_String a - 1 + SCHARS (XCAR elt) else 0) +
     whole_list_size a rest"
| "whole_list_size a x = 0"

section \<open>Notions used to state the properties of the recorder\<close>

text \<open>
  Marker correction in the words of the specification (section 4.4): the delta of a
  marker, and the markers that get a record. With \<open>closed\<close> the range of positions is
  the closed interval from \<open>from\<close> to \<open>to\<close>; without it the half-open interval that the
  specification names.
\<close>

definition marker_delta :: "int \<Rightarrow> int \<Rightarrow> marker \<Rightarrow> int" where
  "marker_delta from to m = (if insertion_type m then to else from) - charpos m"

definition adjusted_markers :: "bool \<Rightarrow> int \<Rightarrow> int \<Rightarrow> marker list \<Rightarrow> marker list" where
  "adjusted_markers closed from to ms =
     filter (\<lambda>m. from \<le> charpos m \<and> (if closed then charpos m \<le> to else charpos m < to)
                 \<and> marker_delta from to m \<noteq> 0) ms"

definition adjustment_record :: "int \<Rightarrow> int \<Rightarrow> marker \<Rightarrow> lisp" where
  "adjustment_record from to m = Fcons (Marker (marker_object m)) (Fixnum (marker_delta from to m))"

text \<open>Pushing entries onto a log one after the other; the last one ends up at the head.\<close>

definition push_all :: "lisp list \<Rightarrow> lisp \<Rightarrow> lisp" where
  "push_all es ul = foldl (\<lambda>l e. Fcons e l) ul es"

text \<open>The head of a log is an insertion record that ends at \<open>b\<close>.\<close>

definition insertion_ending_at :: "int \<Rightarrow> lisp \<Rightarrow> bool" where
  "insertion_ending_at b ul =
     (CONSP ul \<and> CONSP (XCAR ul) \<and> INTEGERP (XCAR (XCAR ul))
      \<and> INTEGERP (XCDR (XCAR ul)) \<and> XINT (XCDR (XCAR ul)) = b)"

section \<open>Concrete logs and settings\<close>

text \<open>
  Limits so tight that the first command alone is over the strong limit, and a log of
  two commands, each one insertion.
\<close>

definition tight_limits :: limits where
  "tight_limits = \<lparr>undo_limit = 10, undo_strong_limit = 20, Vundo_outer_limit = Qnil,
     Vundo_outer_limit_function = None\<rparr>"

definition two_commands :: "lisp list" where
  "two_commands = [Fcons (Fixnum 1) (Fixnum 4), Qnil, Fcons (Fixnum 5) (Fixnum 6), Qnil]"

text \<open>
  Limits that the second command of the next log passes (soft limit 40, strong limit
  1000): an insertion, a boundary, a deletion of three characters, a boundary, and an
  older cursor position.
\<close>

definition soft_limits :: limits where
  "soft_limits = \<lparr>undo_limit = 40, undo_strong_limit = 1000, Vundo_outer_limit = Qnil,
     Vundo_outer_limit_function = None\<rparr>"

definition three_commands :: "lisp list" where
  "three_commands =
     [Fcons (Fixnum 1) (Fixnum 4), Qnil, Fcons (Lstring ''abc'') (Fixnum 1), Qnil, Fixnum 7]"

text \<open>The values that \<^verbatim>\<open>syms_of_undo\<close> gives the limits.\<close>

definition default_limits :: limits where
  "default_limits = \<lparr>undo_limit = 80000, undo_strong_limit = 120000,
     Vundo_outer_limit = Fixnum 12000000, Vundo_outer_limit_function = None\<rparr>"

text \<open>A log of two commands whose last cdr is \<^verbatim>\<open>t\<close> instead of \<^verbatim>\<open>nil\<close>.\<close>

definition improper_log :: lisp where
  "improper_log = Fcons (Fixnum 1) (Fcons Qnil (Fcons (Fixnum 2) Qt))"

text \<open>
  A buffer with an empty log that was modified since it was saved, and a state with
  this buffer under every number; buffer 0 is current and no boundary was made yet.
\<close>

definition modified_buffer :: buffer where
  "modified_buffer = \<lparr>undo_list = Qnil, pt = 1, modiff = 2, save_modiff = 1,
     buf_markers = [], base_buffer = None, modtime = Fixnum 0,
     undo_buffer_undoably_changed = Qnil\<rparr>"

definition editor_with :: "buffer \<Rightarrow> editor" where
  "editor_with b = \<lparr>buffers = (\<lambda>n. b), current_buffer = 0, last_boundary_buffer = None,
     last_boundary_position = 0, pending_boundary = Qnil,
     undo_inhibit_record_point = False, hook_runs = []\<rparr>"

text \<open>
  A buffer that was saved after the insertion of the characters from 10 to 13 and not
  modified since: the insertion is still the head of its log.
\<close>

definition saved_buffer :: buffer where
  "saved_buffer = modified_buffer\<lparr>undo_list := Fcons (Fcons (Fixnum 10) (Fixnum 13)) Qnil,
     modiff := 2, save_modiff := 2\<rparr>"

text \<open>
  A buffer with two markers at position 8: marker 0 stays before inserted text, marker 1
  advances with it.
\<close>

definition marked_buffer :: buffer where
  "marked_buffer = modified_buffer\<lparr>buf_markers :=
     [\<lparr>marker_object = 0, charpos = 8, insertion_type = False\<rparr>,
      \<lparr>marker_object = 1, charpos = 8, insertion_type = True\<rparr>]\<rparr>"

text \<open>
  Buffer 1 is an indirect buffer over buffer 0 and is current; both have logging on,
  and the log of the base buffer holds one insertion.
\<close>

definition indirect_editor :: editor where
  "indirect_editor = (editor_with modified_buffer)\<lparr>
     buffers := (\<lambda>n. if n = 1 then modified_buffer\<lparr>base_buffer := Some 0, modtime := Fixnum 1\<rparr>
                     else modified_buffer\<lparr>undo_list := Fcons (Fcons (Fixnum 1) (Fixnum 2)) Qnil\<rparr>),
     current_buffer := 1\<rparr>"

text \<open>
  A log whose head is a property change, with an insertion behind it, and a log of one
  insertion.
\<close>

definition property_log :: lisp where
  "property_log =
     Fcons (Fcons Qnil (Fcons (Symbol ''face'') (Fcons (Symbol ''bold'')
              (Fcons (Fixnum 1) (Fixnum 5)))))
       (Fcons (Fcons (Fixnum 1) (Fixnum 4)) Qnil)"

definition insertion_log :: lisp where
  "insertion_log = Fcons (Fcons (Fixnum 1) (Fixnum 4)) Qnil"

section \<open>Facts about the Lisp predicates and the list functions\<close>

lemma NILP_iff: "NILP x \<longleftrightarrow> x = Qnil"
  by (cases x) simp_all

lemma CONSP_iff: "CONSP x \<longleftrightarrow> (\<exists>a d. x = Fcons a d)"
  by (cases x) simp_all

lemma elements_setcdr_nil: "elements (setcdr_nil k l) = take (Suc k) (elements l)"
  by (induction k l rule: setcdr_nil.induct) auto

lemma skip_to_boundary_spec:
  "skip_to_boundary a s p i l = (s', p', i', n') \<Longrightarrow>
     i' = i + length (takeWhile (\<lambda>e. e \<noteq> Qnil) (elements l)) \<and>
     (p' = (if takeWhile (\<lambda>e. e \<noteq> Qnil) (elements l) = [] then p else Some (i' - 1))) \<and>
     (CONSP n' \<longrightarrow> (\<exists>r. n' = Fcons Qnil r)) \<and>
     (takeWhile (\<lambda>e. e \<noteq> Qnil) (elements l) = [] \<longrightarrow> n' = l)"
  by (induction a s p i l arbitrary: s' p' i' n' rule: skip_to_boundary.induct)
     (auto simp: NILP_iff split: if_splits)

lemma keep_additional_last_boundary:
  "keep_additional c a s pv lb i l = (n', lb') \<Longrightarrow> pv = Some p \<Longrightarrow> lb = Some k \<Longrightarrow>
     k \<le> p \<Longrightarrow> p < i \<Longrightarrow> \<exists>k'. lb' = Some k' \<and> k \<le> k'"
proof (induction c a s pv lb i l arbitrary: p k rule: keep_additional.induct)
  case (1 c a size_so_far prev last_boundary i elt rest)
  then show ?case
    by (auto split: if_splits) (fastforce+)
qed auto

lemma scan_most_recent_command_spec:
  assumes "scan_most_recent_command a list = (size1, prev1, i1, next1)"
  shows "i1 = length (head_part (elements list))"
    and "CONSP next1 \<Longrightarrow> prev1 = Some (i1 - 1) \<and> 0 < i1"
proof -
  show "i1 = length (head_part (elements list))"
    using assms
    by (cases list)
       (auto simp: scan_most_recent_command_def head_part_def most_recent_command_def
          skip_leading_boundary_def NILP_iff split: if_splits dest!: skip_to_boundary_spec)
  show "prev1 = Some (i1 - 1) \<and> 0 < i1" if "CONSP next1"
    using assms that
    by (cases list)
       (auto simp: scan_most_recent_command_def NILP_iff split: if_splits
          dest!: skip_to_boundary_spec)
qed

lemma truncated_behind_most_recent_command:
  assumes "truncate_outcome a c list = Truncated k"
  shows "length (head_part (elements list)) \<le> Suc k"
proof -
  obtain size1 prev1 i1 next1 where
    scan: "scan_most_recent_command a list = (size1, prev1, i1, next1)"
    by (cases "scan_most_recent_command a list") auto
  define lb where "lb = (if CONSP next1 then prev1 else None)"
  obtain next2 lb2 where
    keep: "keep_additional c a size1 prev1 lb i1 next1 = (next2, lb2)"
    by (cases "keep_additional c a size1 prev1 lb i1 next1") auto
  from assms have lb2: "lb2 = Some k"
    using scan keep
    by (auto simp: truncate_outcome_def lb_def[symmetric] Let_def
             split: option.splits if_splits)
  have consp: "CONSP next1"
  proof (rule ccontr)
    assume "\<not> CONSP next1"
    then have "keep_additional c a size1 prev1 lb i1 next1 = (next1, None)"
      by (cases next1) (simp_all add: lb_def)
    with keep lb2 show False by simp
  qed
  from scan_most_recent_command_spec[OF scan] consp
  have len: "length (head_part (elements list)) = i1" and prev1: "prev1 = Some (i1 - 1)"
    and pos: "0 < i1"
    by simp_all
  from keep_additional_last_boundary[OF keep prev1, of "i1 - 1"] consp prev1 pos lb2
  have "i1 - 1 \<le> k" by (auto simp: lb_def)
  with len pos show ?thesis by simp
qed

lemma take_head_part:
  "length (head_part xs) \<le> n \<Longrightarrow> prefix (head_part xs) (take n xs)"
proof -
  assume n: "length (head_part xs) \<le> n"
  have "prefix (head_part xs) xs"
    by (cases xs) (auto simp: head_part_def most_recent_command_def skip_leading_boundary_def
          takeWhile_is_prefix)
  then obtain r where "xs = head_part xs @ r" by (auto simp: prefix_def)
  then have "take n xs = head_part xs @ take (n - length (head_part xs)) r"
    using n by (metis take_append take_all)
  then show ?thesis by (simp add: prefix_def)
qed

lemma takeWhile_take_long:
  "length (takeWhile P xs) \<le> n \<Longrightarrow> takeWhile P (take n xs) = takeWhile P xs"
proof (induction xs arbitrary: n)
  case Nil
  then show ?case by simp
next
  case (Cons x xs)
  then show ?case by (cases n) (auto split: if_splits)
qed

lemma most_recent_command_take:
  "length (head_part xs) \<le> n \<Longrightarrow> most_recent_command (take n xs) = most_recent_command xs"
proof (cases xs)
  case Nil
  then show ?thesis by simp
next
  case (Cons x r)
  assume n: "length (head_part xs) \<le> n"
  show ?thesis
  proof (cases "x = Qnil")
    case True
    with Cons n obtain m where m: "n = Suc m" and "length (takeWhile (\<lambda>e. e \<noteq> Qnil) r) \<le> m"
      by (cases n) (auto simp: head_part_def most_recent_command_def skip_leading_boundary_def)
    with True Cons show ?thesis
      by (simp add: most_recent_command_def skip_leading_boundary_def takeWhile_take_long)
  next
    case False
    with Cons n obtain m where m: "n = Suc m" and "length (takeWhile (\<lambda>e. e \<noteq> Qnil) r) \<le> m"
      by (cases n) (auto simp: head_part_def most_recent_command_def skip_leading_boundary_def)
    with False Cons show ?thesis
      by (simp add: most_recent_command_def skip_leading_boundary_def takeWhile_take_long)
  qed
qed

lemma setcdr_nil_of_list: "setcdr_nil k (of_list xs) = of_list (take (Suc k) xs)"
proof (induction xs arbitrary: k)
  case Nil
  then show ?case by (cases k) simp_all
next
  case (Cons x xs)
  then show ?case by (cases k) simp_all
qed

lemma elements_of_list: "elements (of_list xs) = xs"
  by (induction xs) simp_all

lemma skip_to_boundary_of_list:
  "skip_to_boundary a s p i (of_list ys) =
     (s + sum_list (map (element_space a) (takeWhile (\<lambda>e. e \<noteq> Qnil) ys)),
      (if takeWhile (\<lambda>e. e \<noteq> Qnil) ys = [] then p
       else Some (i + length (takeWhile (\<lambda>e. e \<noteq> Qnil) ys) - 1)),
      i + length (takeWhile (\<lambda>e. e \<noteq> Qnil) ys),
      of_list (dropWhile (\<lambda>e. e \<noteq> Qnil) ys))"
  by (induction ys arbitrary: s p i) (auto simp: NILP_iff)

lemma keep_additional_of_list:
  "0 < i \<Longrightarrow>
   (case retention_scan False c a s (Suc k) i ys of
      None \<Rightarrow> fst (keep_additional c a s (Some (i - 1)) (Some k) i (of_list ys)) = Qnil
    | Some cp \<Rightarrow> 0 < cp \<and> (\<exists>r. keep_additional c a s (Some (i - 1)) (Some k) i (of_list ys)
                              = (Fcons Qnil r, Some (cp - 1))))"
proof (induction ys arbitrary: s k i)
  case Nil
  then show ?case by simp
next
  case (Cons e es)
  show ?case
  proof (cases "e = Qnil")
    case True
    with Cons.prems Cons.IH[of "Suc i" "s + element_space a e" "i - 1"] show ?thesis
      by (auto simp: Let_def split: option.splits)
  next
    case False
    with Cons.prems Cons.IH[of "Suc i" "s + element_space a e" k] show ?thesis
      by (auto simp: NILP_iff split: option.splits)
  qed
qed

lemma prefix_head_part: "prefix (head_part xs) xs"
  by (cases xs) (auto simp: head_part_def most_recent_command_def skip_leading_boundary_def
        takeWhile_is_prefix)

lemma head_part_take: "take (length (head_part xs)) xs = head_part xs"
proof -
  from prefix_head_part obtain r where "xs = head_part xs @ r" by (auto simp: prefix_def)
  then show ?thesis by (metis append_eq_conv_conj)
qed

lemma drop_head_part:
  "drop (length (head_part xs)) xs = dropWhile (\<lambda>e. e \<noteq> Qnil) (skip_leading_boundary xs)"
  by (cases xs) (auto simp: head_part_def most_recent_command_def skip_leading_boundary_def
        dropWhile_eq_drop)

lemma most_recent_scan_of_list:
  assumes "xs \<noteq> []"
  shows "scan_most_recent_command a (of_list xs) =
         (sum_list (map (element_space a) (head_part xs)),
          Some (length (head_part xs) - 1), length (head_part xs),
          of_list (drop (length (head_part xs)) xs)) \<and> 0 < length (head_part xs)"
proof (cases xs)
  case Nil
  with assms show ?thesis by simp
next
  case (Cons x r)
  show ?thesis
  proof (cases "x = Qnil")
    case True
    with Cons show ?thesis
      by (simp add: scan_most_recent_command_def skip_to_boundary_of_list drop_head_part)
         (simp add: head_part_def most_recent_command_def skip_leading_boundary_def
            element_space_def)
  next
    case False
    with Cons show ?thesis
      by (simp add: scan_most_recent_command_def NILP_iff skip_to_boundary_of_list drop_head_part)
         (simp add: head_part_def most_recent_command_def skip_leading_boundary_def)
  qed
qed

lemma truncate_outcome_of_list:
  assumes "\<not> overflow_handled a c (of_list xs)"
  shows "truncate_outcome a c (of_list xs) =
           (case retention_scan False c a (sum_list (map (element_space a) (head_part xs)))
                   (length (head_part xs)) (length (head_part xs))
                   (drop (length (head_part xs)) xs) of
              None \<Rightarrow> Unchanged
            | Some cp \<Rightarrow> Truncated (cp - 1))"
proof (cases "xs = []")
  case True
  with assms show ?thesis
    by (auto simp: truncate_outcome_def overflow_handled_def head_part_def
          scan_most_recent_command_def
          most_recent_command_def skip_leading_boundary_def split: option.splits)
next
  case False
  define n where "n = length (head_part xs)"
  define s where "s = sum_list (map (element_space a) (head_part xs))"
  note scan = most_recent_scan_of_list[OF False, of a, folded n_def s_def]
  then have n: "0 < n" by simp
  from assms scan have tem: "outer_limit_call c s (of_list xs) = None"
    by (simp add: overflow_handled_def)
  note keep = keep_additional_of_list[OF n, of c a s "n - 1" "drop n xs"]
  show ?thesis
  proof (cases "drop n xs")
    case Nil
    then show ?thesis
      using scan tem n
      by (simp add: truncate_outcome_def n_def[symmetric] s_def[symmetric])
  next
    case (Cons y ys)
    then have consp: "CONSP (of_list (drop n xs))" by simp
    show ?thesis
    proof (cases "retention_scan False c a s n n (drop n xs)")
      case None
      with keep n have "fst (keep_additional c a s (Some (n - 1)) (Some (n - 1)) n (of_list (drop n xs))) = Qnil"
        by simp
      then show ?thesis
        using scan tem n consp None
        by (simp add: truncate_outcome_def n_def[symmetric]
              s_def[symmetric] split_beta)
    next
      case (Some cp)
      with keep n obtain r where
        "keep_additional c a s (Some (n - 1)) (Some (n - 1)) n (of_list (drop n xs)) =
           (Fcons Qnil r, Some (cp - 1))"
        by auto
      then show ?thesis
        using scan tem n consp Some
        by (simp add: truncate_outcome_def n_def[symmetric]
              s_def[symmetric])
    qed
  qed
qed

lemma retention_scan_cut_positive:
  "retention_scan kb c a s k i ys = Some cp \<Longrightarrow> 0 < k \<Longrightarrow> 0 < i \<Longrightarrow> 0 < cp"
  by (induction kb c a s k i ys rule: retention_scan.induct)
     (auto simp: Let_def split: if_splits)

lemma skip_to_boundary_final_tail:
  "skip_to_boundary a s p i l = (s', p', i', n') \<Longrightarrow> final_tail n' = final_tail l"
  by (induction a s p i l arbitrary: s' p' i' n' rule: skip_to_boundary.induct)
     (auto split: if_splits)

lemma keep_additional_improper:
  "final_tail l \<noteq> Qnil \<Longrightarrow> fst (keep_additional c a s pv lb i l) \<noteq> Qnil"
  by (induction c a s pv lb i l rule: keep_additional.induct) auto

lemma final_tail_setcdr_nil:
  "k < length (elements l) \<Longrightarrow> final_tail (setcdr_nil k l) = Qnil"
  by (induction k l rule: setcdr_nil.induct) auto

lemma keep_additional_cell:
  "keep_additional c a s pv lb i l = (n', Some k') \<Longrightarrow>
     (\<And>p. pv = Some p \<Longrightarrow> p < i) \<Longrightarrow> (\<And>k. lb = Some k \<Longrightarrow> k < i) \<Longrightarrow>
     k' < i + length (elements l)"
proof (induction c a s pv lb i l rule: keep_additional.induct)
  case (1 c a size_so_far prev last_boundary i elt rest)
  show ?case
  proof (cases "NILP elt")
    case True
    show ?thesis
    proof (cases "size_so_far > undo_strong_limit c \<or> size_so_far > undo_limit c")
      case True
      with \<open>NILP elt\<close> "1.prems" show ?thesis by (auto split: if_splits)
    next
      case False
      with \<open>NILP elt\<close> "1.prems"(1) have
        "keep_additional c a (size_so_far + element_space a elt) (Some i) prev (Suc i) rest
           = (n', Some k')" by simp
      from "1.IH"(1)[OF \<open>NILP elt\<close> _ _ this] False "1.prems"(2)
      show ?thesis by fastforce
    qed
  next
    case False
    with "1.prems"(1) have
      "keep_additional c a (size_so_far + element_space a elt) (Some i) last_boundary (Suc i) rest
           = (n', Some k')" by simp
    from "1.IH"(2)[OF False this] "1.prems"(3)
    show ?thesis by fastforce
  qed
qed auto

lemma skip_to_boundary_cells:
  "skip_to_boundary a s p i l = (s', p', i', n') \<Longrightarrow>
     i' + length (elements n') = i + length (elements l)"
  by (induction a s p i l arbitrary: s' p' i' n' rule: skip_to_boundary.induct)
     (auto split: if_splits)

lemma scan_most_recent_command_final_tail:
  assumes "scan_most_recent_command a list = (size1, prev1, i1, next1)"
  shows "final_tail next1 = final_tail list"
    and "i1 + length (elements next1) = length (elements list)"
  using assms
  by (cases list;
      auto simp: scan_most_recent_command_def NILP_iff split: if_splits
        dest: skip_to_boundary_final_tail skip_to_boundary_cells)+

section \<open>Facts about the recorder and the size of the log\<close>

lemma BVAR_bset_current [simp]:
  "b = current_buffer e \<Longrightarrow> BVAR_undo_list (bset_undo_list b v e) = v"
  by (simp add: BVAR_undo_list_def bset_undo_list_def)

lemma current_buffer_bset [simp]: "current_buffer (bset_undo_list b v e) = current_buffer e"
  by (simp add: bset_undo_list_def)

lemma bset_undo_list_frame [simp]:
  "undo_inhibit_record_point (bset_undo_list b v e) = undo_inhibit_record_point e"
  "last_boundary_buffer (bset_undo_list b v e) = last_boundary_buffer e"
  "last_boundary_position (bset_undo_list b v e) = last_boundary_position e"
  "MODIFF (bset_undo_list b v e) = MODIFF e"
  "SAVE_MODIFF (bset_undo_list b v e) = SAVE_MODIFF e"
  "PT (bset_undo_list b v e) = PT e"
  by (simp_all add: bset_undo_list_def MODIFF_def SAVE_MODIFF_def PT_def)

lemma allocate_pending_boundary_frame [simp]:
  "buffers (allocate_pending_boundary e) = buffers e"
  "current_buffer (allocate_pending_boundary e) = current_buffer e"
  "BVAR_undo_list (allocate_pending_boundary e) = BVAR_undo_list e"
  "undo_inhibit_record_point (allocate_pending_boundary e) = undo_inhibit_record_point e"
  "last_boundary_buffer (allocate_pending_boundary e) = last_boundary_buffer e"
  "last_boundary_position (allocate_pending_boundary e) = last_boundary_position e"
  "MODIFF (allocate_pending_boundary e) = MODIFF e"
  "SAVE_MODIFF (allocate_pending_boundary e) = SAVE_MODIFF e"
  by (simp_all add: allocate_pending_boundary_def BVAR_undo_list_def MODIFF_def SAVE_MODIFF_def)

lemma first_undoable_change_frame [simp]:
  "current_buffer (first_undoable_change e) = current_buffer e"
  "BVAR_undo_list (first_undoable_change e) = BVAR_undo_list e"
  "buf_markers (buffers (first_undoable_change e) b) = buf_markers (buffers e b)"
  "undo_list (buffers (first_undoable_change e) b) = undo_list (buffers e b)"
  "undo_inhibit_record_point (first_undoable_change e) = undo_inhibit_record_point e"
  "last_boundary_buffer (first_undoable_change e) = last_boundary_buffer e"
  "last_boundary_position (first_undoable_change e) = last_boundary_position e"
  "MODIFF (first_undoable_change e) = MODIFF e"
  "SAVE_MODIFF (first_undoable_change e) = SAVE_MODIFF e"
  by (simp_all add: first_undoable_change_def BVAR_undo_list_def MODIFF_def SAVE_MODIFF_def)

lemma current_buffer_record_first_change [simp]:
  "current_buffer (record_first_change e) = current_buffer e"
  by (simp add: record_first_change_def Let_def)

lemma current_buffer_record_point [simp]:
  "current_buffer (record_point p e) = current_buffer e"
  by (simp add: record_point_def Let_def)

lemma current_buffer_record_marker_adjustments [simp]:
  "current_buffer (record_marker_adjustments from to e) = current_buffer e"
  by (simp add: record_marker_adjustments_def Let_def)

lemma marker_adjustments_push_all:
  "marker_adjustments from to ms ul =
     push_all (map (adjustment_record from to) (adjusted_markers True from to ms)) ul"
  by (induction ms arbitrary: ul)
     (simp_all add: push_all_def adjusted_markers_def adjustment_record_def marker_delta_def Let_def)

lemma record_point_modified:
  assumes "undo_inhibit_record_point e \<or> SAVE_MODIFF e < MODIFF e"
  shows "BVAR_undo_list (record_point p e) =
           (if \<not> undo_inhibit_record_point e
               \<and> (\<not> CONSP (BVAR_undo_list e) \<or> NILP (XCAR (BVAR_undo_list e)))
               \<and> Some (current_buffer e) = last_boundary_buffer e
               \<and> last_boundary_position e \<noteq> p
            then Fcons (Fixnum (last_boundary_position e)) (BVAR_undo_list e)
            else BVAR_undo_list e)"
    and "current_buffer (record_point p e) = current_buffer e"
    and "undo_inhibit_record_point (record_point p e) = undo_inhibit_record_point e"
    and "MODIFF (record_point p e) = MODIFF e"
    and "SAVE_MODIFF (record_point p e) = SAVE_MODIFF e"
  using assms by (auto simp: record_point_def Let_def)

lemma record_insert_unfold:
  "record_insert beg len e =
     (if BVAR_undo_list e = Qt then e
      else if insertion_ending_at beg (BVAR_undo_list (record_point beg e))
           then bset_undo_list (current_buffer e)
                  (Fcons (Fcons (XCAR (XCAR (BVAR_undo_list (record_point beg e))))
                            (Fixnum (beg + len)))
                     (XCDR (BVAR_undo_list (record_point beg e)))) (record_point beg e)
           else bset_undo_list (current_buffer e)
                  (Fcons (Fcons (Fixnum beg) (Fixnum (beg + len)))
                     (BVAR_undo_list (record_point beg e))) (record_point beg e))"
  by (simp add: record_insert_def Let_def insertion_ending_at_def)

lemma undo_size_loop_small_num:
  "num \<le> b + 1 \<Longrightarrow> num' \<le> b + 1 \<Longrightarrow>
     undo_size_loop a num s b l = undo_size_loop a num' s b l"
proof (induction l arbitrary: s)
  case (Fcons elt rest)
  then show ?case by (simp add: Let_def)
qed simp_all

lemma undo_size_loop_no_property_change:
  "\<forall>e \<in> set (elements l). \<not> (CONSP e \<and> XCAR e = Qnil) \<Longrightarrow>
     undo_size_loop a num s b l = s + whole_list_size a l"
proof (induction l arbitrary: s)
  case (Fcons elt rest)
  then show ?case by (simp add: Let_def)
qed simp_all

lemma undo_size_loop_property_change_head:
  "num \<le> b + 1 \<Longrightarrow>
     undo_size_loop a num s b (Fcons (Fcons Qnil x) rest) = s + sizeof_Lisp_Cons a"
  by (simp add: Let_def)

lemma record_first_change_base_untouched:
  "base_buffer (buffers e (current_buffer e)) = Some b \<Longrightarrow> b \<noteq> current_buffer e \<Longrightarrow>
     undo_list (buffers (record_first_change e) b) = undo_list (buffers e b)"
  by (simp add: record_first_change_def bset_undo_list_def Let_def)

lemma record_first_change_pushes_on_current:
  "BVAR_undo_list e \<noteq> Qt \<Longrightarrow>
     BVAR_undo_list (record_first_change e) =
       Fcons (Fcons Qt (Fvisited_file_modtime e)) (BVAR_undo_list e)"
  by (simp add: record_first_change_def bset_undo_list_def BVAR_undo_list_def Let_def)

section \<open>The most recent command survives truncation\<close>

text \<open>
  Claim C1. For every log, proper or not, on which \<^verbatim>\<open>truncate_undo_list\<close> runs: if the
  overflow function did not report that it handled the overflow and the log was not
  cleared (the last branch of the function), then the log after the call starts with the
  optional leading boundary and the records of the most recent command, whatever their
  size; and the most recent command of the log after the call is the one before it.
\<close>

theorem truncate_keeps_most_recent_command:
  assumes "\<not> overflow_handled a c list" and "truncate_outcome a c list \<noteq> Cleared"
  shows "prefix (head_part (elements list)) (elements (truncate_undo_list a c list)) \<and>
         most_recent_command (elements (truncate_undo_list a c list)) =
           most_recent_command (elements list)"
proof (cases "truncate_outcome a c list")
  case (Handled l)
  with assms show ?thesis
    by (auto simp: overflow_handled_def truncate_outcome_def Let_def
          split: prod.splits option.splits if_splits)
next
  case Unchanged
  then have "truncate_undo_list a c list = list" by (simp add: truncate_undo_list_def)
  moreover have "prefix (head_part (elements list)) (elements list)"
    using take_head_part[of "elements list" "length (elements list)"]
    by (cases "elements list") (auto simp: head_part_def most_recent_command_def skip_leading_boundary_def
          takeWhile_is_prefix)
  ultimately show ?thesis by simp
next
  case (Truncated k)
  then have "elements (truncate_undo_list a c list) = take (Suc k) (elements list)"
    by (simp add: truncate_undo_list_def elements_setcdr_nil)
  with truncated_behind_most_recent_command[OF Truncated] show ?thesis
    by (simp add: take_head_part most_recent_command_take)
next
  case Cleared
  with assms show ?thesis by simp
qed

theorem truncate_keeps_most_recent_command_witness:
  "\<not> overflow_handled lp64 tight_limits (of_list two_commands) \<and>
   truncate_outcome lp64 tight_limits (of_list two_commands) \<noteq> Cleared \<and>
   prefix (head_part (elements (of_list two_commands)))
     (elements (truncate_undo_list lp64 tight_limits (of_list two_commands))) \<and>
   most_recent_command (elements (truncate_undo_list lp64 tight_limits (of_list two_commands)))
     = [Fcons (Fixnum 1) (Fixnum 4)] \<and>
   truncate_undo_list lp64 tight_limits (of_list two_commands)
     = of_list [Fcons (Fixnum 1) (Fixnum 4)]"
proof -
  have h1: "\<not> overflow_handled lp64 tight_limits (of_list two_commands)"
    by (simp add: overflow_handled_def outer_limit_call_def tight_limits_def)
  have h2: "truncate_outcome lp64 tight_limits (of_list two_commands) \<noteq> Cleared"
    by (simp add: truncate_outcome_def scan_most_recent_command_def outer_limit_call_def
          tight_limits_def two_commands_def lp64_def element_space_def)
  have v: "truncate_undo_list lp64 tight_limits (of_list two_commands)
             = of_list [Fcons (Fixnum 1) (Fixnum 4)]"
    by (simp add: truncate_undo_list_def truncate_outcome_def scan_most_recent_command_def
          outer_limit_call_def tight_limits_def two_commands_def lp64_def element_space_def)
  have m: "most_recent_command (elements (of_list two_commands)) = [Fcons (Fixnum 1) (Fixnum 4)]"
    by (simp add: most_recent_command_def skip_leading_boundary_def two_commands_def)
  from truncate_keeps_most_recent_command[OF h1 h2] h1 h2 v m show ?thesis by simp
qed

section \<open>Where the list is cut\<close>

text \<open>
  Claim C2, as stated: at each boundary crossed with a cost within the strong limit the
  candidate cut point moves to just after that boundary. \<open>retained True\<close> is this reading.
  On the log \<open>three_commands\<close> with a soft limit of 40 the scan stops at the second
  boundary, the fourth entry: the code keeps the three entries before it and drops the
  boundary, where the claim keeps four entries.
\<close>

theorem truncate_cut_after_boundary_counterexample:
  "truncate_undo_list lp64 soft_limits (of_list three_commands)
     = of_list [Fcons (Fixnum 1) (Fixnum 4), Qnil, Fcons (Lstring ''abc'') (Fixnum 1)] \<and>
   retained True soft_limits lp64 three_commands
     = [Fcons (Fixnum 1) (Fixnum 4), Qnil, Fcons (Lstring ''abc'') (Fixnum 1), Qnil] \<and>
   truncate_undo_list lp64 soft_limits (of_list three_commands)
     \<noteq> of_list (retained True soft_limits lp64 three_commands)"
proof -
  have c: "truncate_undo_list lp64 soft_limits (of_list three_commands)
     = of_list [Fcons (Fixnum 1) (Fixnum 4), Qnil, Fcons (Lstring ''abc'') (Fixnum 1)]"
    by (simp add: truncate_undo_list_def truncate_outcome_def scan_most_recent_command_def
          outer_limit_call_def soft_limits_def three_commands_def lp64_def element_space_def)
  have s: "retained True soft_limits lp64 three_commands
     = [Fcons (Fixnum 1) (Fixnum 4), Qnil, Fcons (Lstring ''abc'') (Fixnum 1), Qnil]"
    by (simp add: retained_def soft_limits_def three_commands_def lp64_def element_space_def
          head_part_def most_recent_command_def skip_leading_boundary_def)
  show ?thesis unfolding c s by simp
qed

text \<open>
  Claim C2, amended. For every log that is a proper list, when the overflow function
  does not report that it handled the overflow: past the most recent command, at each
  boundary crossed, if the cost accumulated so far exceeds the strong limit the scan
  stops with the candidate cut point unchanged; otherwise the candidate cut point moves
  to just before that boundary (the entries passed so far are kept, the boundary itself
  is not), and if the cost also exceeds the soft limit the scan stops there. A scan that
  reaches the end of the list changes nothing; a scan that stops cuts the list at the
  candidate. This is \<open>retained False\<close>, and the code computes it.
\<close>

theorem truncate_cuts_before_boundary:
  assumes "\<not> overflow_handled a c (of_list xs)"
  shows "truncate_undo_list a c (of_list xs) = of_list (retained False c a xs)"
proof (cases "xs = []")
  case True
  then show ?thesis
    using truncate_outcome_of_list[OF assms]
    by (simp add: truncate_undo_list_def retained_def head_part_def most_recent_command_def
          skip_leading_boundary_def)
next
  case False
  then have n: "0 < length (head_part xs)"
    using most_recent_scan_of_list[of xs a] by simp
  show ?thesis
  proof (cases "retention_scan False c a (sum_list (map (element_space a) (head_part xs)))
                   (length (head_part xs)) (length (head_part xs))
                   (drop (length (head_part xs)) xs)")
    case None
    then show ?thesis
      using truncate_outcome_of_list[OF assms]
      by (simp add: truncate_undo_list_def retained_def)
  next
    case (Some cp)
    from retention_scan_cut_positive[OF Some n n] have "0 < cp" .
    with Some show ?thesis
      using truncate_outcome_of_list[OF assms]
      by (simp add: truncate_undo_list_def retained_def setcdr_nil_of_list)
  qed
qed

theorem truncate_cuts_before_boundary_witness:
  "\<not> overflow_handled lp64 soft_limits (of_list three_commands) \<and>
   truncate_undo_list lp64 soft_limits (of_list three_commands)
     = of_list (retained False soft_limits lp64 three_commands) \<and>
   retained False soft_limits lp64 three_commands
     = [Fcons (Fixnum 1) (Fixnum 4), Qnil, Fcons (Lstring ''abc'') (Fixnum 1)]"
proof -
  have h: "\<not> overflow_handled lp64 soft_limits (of_list three_commands)"
    by (simp add: overflow_handled_def outer_limit_call_def soft_limits_def)
  have s: "retained False soft_limits lp64 three_commands
     = [Fcons (Fixnum 1) (Fixnum 4), Qnil, Fcons (Lstring ''abc'') (Fixnum 1)]"
    by (simp add: retained_def soft_limits_def three_commands_def lp64_def element_space_def
          head_part_def most_recent_command_def skip_leading_boundary_def)
  from truncate_cuts_before_boundary[OF h] h s show ?thesis by simp
qed

section \<open>Logs that are not proper lists\<close>

text \<open>
  Claim C8 (for a log that is not a proper list, the disabled sentinel \<^verbatim>\<open>t\<close> included,
  \<^verbatim>\<open>truncate_undo_list\<close> performs no truncation and leaves the log unchanged). The code
  does not do it. Its last test is \<^verbatim>\<open>NILP (next)\<close>, under the comment "If we scanned the
  whole list, it is short enough; don't change it"; a scan that ends on an atom other
  than \<^verbatim>\<open>nil\<close> has scanned the whole list as well, and falls through to the cut or to
  the clearing of the log. With the default limits, far from exceeded, the sentinel
  \<^verbatim>\<open>t\<close> is replaced by the empty list, and the two commands of \<open>improper_log\<close> are cut
  down to the first.
\<close>

theorem truncate_improper_log_changed:
  "truncate_undo_list lp64 default_limits Qt = Qnil \<and>
   truncate_undo_list lp64 default_limits Qt \<noteq> Qt \<and>
   truncate_undo_list lp64 default_limits improper_log = Fcons (Fixnum 1) Qnil \<and>
   truncate_undo_list lp64 default_limits improper_log \<noteq> improper_log"
  by (simp add: truncate_undo_list_def truncate_outcome_def scan_most_recent_command_def
        outer_limit_call_def default_limits_def improper_log_def lp64_def element_space_def)

text \<open>
  The same for every log that is not a proper list (its last cdr is not \<^verbatim>\<open>nil\<close>), when
  the overflow function does not report that it handled the overflow: the log after
  \<^verbatim>\<open>truncate_undo_list\<close> is a proper list, so it is never the log before, and it is
  the empty list exactly when the improper tail ends the most recent command.
\<close>

lemma truncate_improper_log_never_unchanged:
  assumes "final_tail list \<noteq> Qnil" and "\<not> overflow_handled a c list"
  shows "final_tail (truncate_undo_list a c list) = Qnil \<and>
         truncate_undo_list a c list \<noteq> list \<and>
         (truncate_undo_list a c list = Qnil) =
           (length (head_part (elements list)) = length (elements list))"
proof -
  obtain size1 prev1 i1 next1 where
    scan: "scan_most_recent_command a list = (size1, prev1, i1, next1)"
    by (cases "scan_most_recent_command a list") auto
  note tail = scan_most_recent_command_final_tail[OF scan]
  note spec = scan_most_recent_command_spec[OF scan]
  from assms(2) scan have tem: "outer_limit_call c size1 list = None"
    by (simp add: overflow_handled_def)
  define lb where "lb = (if CONSP next1 then prev1 else None)"
  obtain next2 lb2 where
    keep: "keep_additional c a size1 prev1 lb i1 next1 = (next2, lb2)"
    by (cases "keep_additional c a size1 prev1 lb i1 next1") auto
  from keep_additional_improper[of next1 c a size1 prev1 lb i1] tail(1) assms(1) keep
  have next2: "\<not> NILP next2" by (simp add: NILP_iff)
  have outcome: "truncate_outcome a c list = (case lb2 of Some k \<Rightarrow> Truncated k | None \<Rightarrow> Cleared)"
    using scan tem keep next2 by (simp add: truncate_outcome_def lb_def[symmetric])
  have proper: "final_tail (truncate_undo_list a c list) = Qnil \<and>
      (truncate_undo_list a c list = Qnil) =
           (length (head_part (elements list)) = length (elements list))"
  proof (cases "CONSP next1")
    case False
    then have "keep_additional c a size1 prev1 lb i1 next1 = (next1, None)"
      by (cases next1) (simp_all add: lb_def)
    with keep have "lb2 = None" by simp
    moreover from False have "elements next1 = []" by (cases next1) simp_all
    ultimately show ?thesis
      using outcome spec(1) tail(2) by (simp add: truncate_undo_list_def)
  next
    case True
    with spec(2) have prev1: "prev1 = Some (i1 - 1)" and pos: "0 < i1" by simp_all
    from keep_additional_last_boundary[OF keep prev1, of "i1 - 1"] True pos prev1
    obtain k where k: "lb2 = Some k" by (auto simp: lb_def)
    from keep_additional_cell[OF keep[unfolded k]] prev1 pos True
    have "k < i1 + length (elements next1)" by (auto simp: lb_def)
    with tail(2) have cell: "k < length (elements list)" by simp
    from True have "0 < length (elements next1)" by (cases next1) simp_all
    with tail(2) spec(1) have "length (head_part (elements list)) \<noteq> length (elements list)"
      by linarith
    moreover from cell have "setcdr_nil k list \<noteq> Qnil"
      by (cases list; cases k) simp_all
    ultimately show ?thesis
      using outcome k cell by (simp add: truncate_undo_list_def final_tail_setcdr_nil)
  qed
  moreover from proper assms(1) have "truncate_undo_list a c list \<noteq> list" by auto
  ultimately show ?thesis by simp
qed

section \<open>The size of the log\<close>

text \<open>
  Claim C3 (\<^verbatim>\<open>undo-size\<close> with a count that is absent or zero returns the cost of the
  whole log). The documentation string of \<^verbatim>\<open>Fundo_size\<close> says the same ("or the whole
  list iff n is zero"), and the code does not do it: with the counters starting at zero,
  on a log whose head is a property change followed by an insertion, the loop takes the
  property change for a boundary, finds \<open>boundary_so_far \<ge> num\<close> and stops after one
  cell, for the count 0 and for an absent count alike; the whole log costs two cells.
\<close>

theorem undo_size_zero_stops_early:
  "BVAR_undo_list (editor_with (modified_buffer\<lparr>undo_list := property_log\<rparr>)) = property_log \<and>
   Fundo_size lp64 0 0 0 (Fixnum 0) (editor_with (modified_buffer\<lparr>undo_list := property_log\<rparr>))
     = Inr (Fixnum 16) \<and>
   Fundo_size lp64 0 0 0 Qnil (editor_with (modified_buffer\<lparr>undo_list := property_log\<rparr>))
     = Inr (Fixnum 16) \<and>
   whole_list_size lp64 property_log = 32"
  by (simp add: Fundo_size_def BVAR_undo_list_def editor_with_def property_log_def lp64_def)

text \<open>
  Claim C4 (\<^verbatim>\<open>undo-size\<close> charges an entry what the scan of \<^verbatim>\<open>truncate_undo_list\<close>
  charges). On a log of one insertion \<^verbatim>\<open>Fundo_size\<close> counts one cons cell, the chain
  link, where \<^verbatim>\<open>truncate_undo_list\<close> counts two, the chain link and the record's own
  cell: the statement \<^verbatim>\<open>size_so_far += sizeof (struct Lisp_Cons)\<close> under
  \<^verbatim>\<open>if (CONSP (elt))\<close> is missing from \<^verbatim>\<open>Fundo_size\<close>.
\<close>

theorem undo_size_differs_from_truncate:
  "Fundo_size lp64 0 0 0 Qnil (editor_with (modified_buffer\<lparr>undo_list := insertion_log\<rparr>))
     = Inr (Fixnum 16) \<and>
   whole_list_size lp64 insertion_log = 16 \<and>
   fst (scan_most_recent_command lp64 insertion_log) = 32 \<and>
   element_space lp64 (Fcons (Fixnum 1) (Fixnum 4)) = 32"
  by (simp add: Fundo_size_def BVAR_undo_list_def editor_with_def insertion_log_def lp64_def
        scan_most_recent_command_def element_space_def)

text \<open>
  Claim C9, as stated: a negative count makes \<^verbatim>\<open>undo-size\<close> fail with an invalid
  argument error. With the count \<open>-1\<close> on a log of one insertion it returns the size 16.
\<close>

theorem undo_size_negative_count_counterexample:
  "Fundo_size lp64 0 0 0 (Fixnum (- 1)) (editor_with (modified_buffer\<lparr>undo_list := insertion_log\<rparr>))
     = Inr (Fixnum 16)"
  by (simp add: Fundo_size_def BVAR_undo_list_def editor_with_def insertion_log_def lp64_def)

text \<open>
  Claim C9, amended. For every negative integer count and every buffer with logging
  enabled \<^verbatim>\<open>undo-size\<close> does not fail: it returns the size that its loop accumulates
  for that count, which with \<open>boundary_so_far\<close> starting at zero is the size it returns
  for the count 1. Whatever the count \<open>n\<close>, the only failure is the
  \<^verbatim>\<open>wrong-type-argument\<close> of \<^verbatim>\<open>CHECK_NUMBER\<close> for an \<open>n\<close> that is neither absent nor an
  integer.
\<close>

theorem undo_size_negative_count:
  assumes "k < 0" and "BVAR_undo_list e \<noteq> Qt"
  shows "Fundo_size a size0 boundary0 num0 (Fixnum k) e
           = Inr (Fixnum (undo_size_loop a k size0 boundary0 (BVAR_undo_list e))) \<and>
         Fundo_size a size0 0 num0 (Fixnum k) e = Fundo_size a size0 0 num0 (Fixnum 1) e \<and>
         (isl (Fundo_size a size0 boundary0 num0 n e) = (n \<noteq> Qnil \<and> \<not> INTEGERP n))"
  using assms undo_size_loop_small_num[of k 0 1 a size0 "BVAR_undo_list e"]
  by (simp add: Fundo_size_def Let_def)

theorem undo_size_negative_count_witness:
  "(- 1 :: int) < 0 \<and>
   BVAR_undo_list (editor_with (modified_buffer\<lparr>undo_list := property_log\<rparr>)) \<noteq> Qt \<and>
   Fundo_size lp64 0 0 0 (Fixnum (- 1)) (editor_with (modified_buffer\<lparr>undo_list := property_log\<rparr>))
     = Inr (Fixnum 16) \<and>
   Fundo_size lp64 0 0 0 (Fixnum 1) (editor_with (modified_buffer\<lparr>undo_list := property_log\<rparr>))
     = Inr (Fixnum 16) \<and>
   isl (Fundo_size lp64 0 0 0 (Symbol ''many'') (editor_with (modified_buffer\<lparr>undo_list := property_log\<rparr>)))"
proof -
  let ?e = "editor_with (modified_buffer\<lparr>undo_list := property_log\<rparr>)"
  have h1: "(- 1 :: int) < 0" by simp
  have h2: "BVAR_undo_list ?e \<noteq> Qt"
    by (simp add: BVAR_undo_list_def editor_with_def property_log_def)
  have v: "undo_size_loop lp64 (- 1) 0 0 (BVAR_undo_list ?e) = 16"
    by (simp add: BVAR_undo_list_def editor_with_def property_log_def lp64_def)
  from undo_size_negative_count[OF h1 h2, of lp64 0 0 0 "Symbol ''many''"] h1 h2 v
  show ?thesis by auto
qed

section \<open>Marker adjustments\<close>

text \<open>
  Claim C5, as stated: a record is pushed exactly for the markers whose position lies in
  the half-open interval from \<open>from\<close> to \<open>to\<close> and whose delta is not zero. A marker at
  position 8 that does not advance with inserted text gets a record for the deletion
  from 5 to 8, although 8 is outside the half-open interval; by the claim no record is
  pushed and the log stays empty.
\<close>

theorem marker_adjustments_half_open_counterexample:
  "BVAR_undo_list (record_marker_adjustments 5 8 (editor_with marked_buffer))
     = Fcons (Fcons (Marker 0) (Fixnum (- 3))) Qnil \<and>
   push_all (map (adjustment_record 5 8) (adjusted_markers False 5 8
       (buf_markers (buffers (editor_with marked_buffer) (current_buffer (editor_with marked_buffer))))))
     (BVAR_undo_list (editor_with marked_buffer)) = Qnil"
  by (simp add: record_marker_adjustments_def allocate_pending_boundary_def first_undoable_change_def
       BVAR_undo_list_def bset_undo_list_def editor_with_def marked_buffer_def modified_buffer_def
       push_all_def adjusted_markers_def adjustment_record_def marker_delta_def)

text \<open>
  Claim C5, amended. For every range and every chain of markers,
  \<^verbatim>\<open>record_marker_adjustments\<close> pushes a record, in the order of the chain, exactly for
  the markers whose position lies in the closed interval from \<open>from\<close> to \<open>to\<close> and whose
  delta (\<open>to\<close> for a marker that advances with inserted text, else \<open>from\<close>, minus the
  position of the marker) is not zero; each record holds the marker and this delta, and
  no other entry is pushed.
\<close>

theorem marker_adjustments_closed_range:
  "BVAR_undo_list (record_marker_adjustments from to e) =
     push_all (map (adjustment_record from to)
                 (adjusted_markers True from to (buf_markers (buffers e (current_buffer e)))))
       (BVAR_undo_list e)"
  by (simp add: record_marker_adjustments_def Let_def marker_adjustments_push_all)

theorem marker_adjustments_closed_range_witness:
  "BVAR_undo_list (record_marker_adjustments 5 8 (editor_with marked_buffer))
     = Fcons (Fcons (Marker 0) (Fixnum (- 3))) Qnil \<and>
   adjusted_markers True 5 8
       (buf_markers (buffers (editor_with marked_buffer)
          (current_buffer (editor_with marked_buffer))))
     = [\<lparr>marker_object = 0, charpos = 8, insertion_type = False\<rparr>]"
proof -
  have m: "adjusted_markers True 5 8
       (buf_markers (buffers (editor_with marked_buffer)
          (current_buffer (editor_with marked_buffer))))
     = [\<lparr>marker_object = 0, charpos = 8, insertion_type = False\<rparr>]"
    by (simp add: adjusted_markers_def marker_delta_def editor_with_def marked_buffer_def
          modified_buffer_def)
  have l: "BVAR_undo_list (editor_with marked_buffer) = Qnil"
    by (simp add: BVAR_undo_list_def editor_with_def marked_buffer_def modified_buffer_def)
  from marker_adjustments_closed_range[of 5 8 "editor_with marked_buffer"] m l
  show ?thesis by (simp add: push_all_def adjustment_record_def marker_delta_def)
qed

section \<open>Insertions\<close>

text \<open>
  Claim C6, as stated: whenever the head of the log is an insertion that ends at \<open>b\<close>,
  \<^verbatim>\<open>record_insert\<close> for \<open>b\<close> extends it in place and pushes nothing. In a buffer that
  was saved after the insertion from 10 to 13 and not modified since, \<^verbatim>\<open>record_point\<close>
  first pushes a first-change record, and the insertion at 13 becomes a record of its
  own: the log has three entries.
\<close>

theorem record_insert_unmodified_counterexample:
  "BVAR_undo_list (editor_with saved_buffer) = Fcons (Fcons (Fixnum 10) (Fixnum 13)) Qnil \<and>
   BVAR_undo_list (record_insert 13 2 (editor_with saved_buffer)) =
     Fcons (Fcons (Fixnum 13) (Fixnum 15))
       (Fcons (Fcons Qt (Fixnum 0)) (Fcons (Fcons (Fixnum 10) (Fixnum 13)) Qnil))"
  by (simp add: record_insert_def record_point_def record_first_change_def
        allocate_pending_boundary_def first_undoable_change_def Fvisited_file_modtime_def
        BVAR_undo_list_def bset_undo_list_def MODIFF_def SAVE_MODIFF_def
        editor_with_def saved_buffer_def modified_buffer_def Let_def)

text \<open>
  Claim C6, amended. For every buffer with logging enabled that is modified since it
  was saved (or with point recording inhibited): if \<^verbatim>\<open>record_insert\<close> is called for \<open>b\<close>
  and \<open>n\<close> when the head of the log is an insertion that ends at \<open>b\<close>, the head record is
  extended to end at \<open>b + n\<close> and no entry is pushed; and if the head of the log is not an
  insertion ending at 10, \<^verbatim>\<open>record_insert\<close> for 10 and 3 followed by \<^verbatim>\<open>record_insert\<close>
  for 13 and 2 leaves one insertion from 10 to 15 at the head, on top of the log as
  \<^verbatim>\<open>record_point\<close> left it.
\<close>

theorem record_insert_coalesces:
  assumes "undo_inhibit_record_point e \<or> SAVE_MODIFF e < MODIFF e"
  shows "(BVAR_undo_list e = Fcons (Fcons (Fixnum x) (Fixnum b)) rest \<longrightarrow>
            BVAR_undo_list (record_insert b n e) = Fcons (Fcons (Fixnum x) (Fixnum (b + n))) rest) \<and>
         (BVAR_undo_list e \<noteq> Qt \<and> \<not> insertion_ending_at 10 (BVAR_undo_list e) \<longrightarrow>
            BVAR_undo_list (record_insert 13 2 (record_insert 10 3 e)) =
              Fcons (Fcons (Fixnum 10) (Fixnum 15)) (BVAR_undo_list (record_point 10 e)))"
proof (intro conjI impI)
  assume head: "BVAR_undo_list e = Fcons (Fcons (Fixnum x) (Fixnum b)) rest"
  with record_point_modified(1)[OF assms, of b]
  have "BVAR_undo_list (record_point b e) = Fcons (Fcons (Fixnum x) (Fixnum b)) rest"
    by simp
  with head show "BVAR_undo_list (record_insert b n e) = Fcons (Fcons (Fixnum x) (Fixnum (b + n))) rest"
    by (simp add: record_insert_def Let_def)
next
  assume pre: "BVAR_undo_list e \<noteq> Qt \<and> \<not> insertion_ending_at 10 (BVAR_undo_list e)"
  define e1 where "e1 = record_insert 10 3 e"
  have "\<not> insertion_ending_at 10 (BVAR_undo_list (record_point 10 e))"
    using pre record_point_modified(1)[OF assms, of 10]
    by (auto simp: insertion_ending_at_def)
  with pre have l1: "BVAR_undo_list e1 =
      Fcons (Fcons (Fixnum 10) (Fixnum 13)) (BVAR_undo_list (record_point 10 e))"
    by (simp add: e1_def record_insert_unfold)
  have ok1: "undo_inhibit_record_point e1 \<or> SAVE_MODIFF e1 < MODIFF e1"
    using assms pre record_point_modified(3,4,5)[OF assms, of 10]
    by (simp add: e1_def record_insert_unfold)
  from record_point_modified(1)[OF ok1, of 13] l1
  have "BVAR_undo_list (record_point 13 e1) = BVAR_undo_list e1" by simp
  with l1 have "BVAR_undo_list (record_insert 13 2 e1) =
              Fcons (Fcons (Fixnum 10) (Fixnum 15)) (BVAR_undo_list (record_point 10 e))"
    by (simp add: record_insert_unfold insertion_ending_at_def)
  then show "BVAR_undo_list (record_insert 13 2 (record_insert 10 3 e)) =
              Fcons (Fcons (Fixnum 10) (Fixnum 15)) (BVAR_undo_list (record_point 10 e))"
    by (simp only: e1_def)
qed

theorem record_insert_coalesces_witness:
  "SAVE_MODIFF (editor_with modified_buffer) < MODIFF (editor_with modified_buffer) \<and>
   BVAR_undo_list (editor_with (modified_buffer\<lparr>undo_list := Fcons (Fcons (Fixnum 10) (Fixnum 13)) Qnil\<rparr>))
     = Fcons (Fcons (Fixnum 10) (Fixnum 13)) Qnil \<and>
   BVAR_undo_list (record_insert 13 2
       (editor_with (modified_buffer\<lparr>undo_list := Fcons (Fcons (Fixnum 10) (Fixnum 13)) Qnil\<rparr>)))
     = Fcons (Fcons (Fixnum 10) (Fixnum 15)) Qnil \<and>
   BVAR_undo_list (editor_with modified_buffer) \<noteq> Qt \<and>
   \<not> insertion_ending_at 10 (BVAR_undo_list (editor_with modified_buffer)) \<and>
   BVAR_undo_list (record_insert 13 2 (record_insert 10 3 (editor_with modified_buffer)))
     = Fcons (Fcons (Fixnum 10) (Fixnum 15)) Qnil"
proof -
  let ?e0 = "editor_with modified_buffer"
  let ?e1 = "editor_with (modified_buffer\<lparr>undo_list := Fcons (Fcons (Fixnum 10) (Fixnum 13)) Qnil\<rparr>)"
  have m0: "SAVE_MODIFF ?e0 < MODIFF ?e0"
    by (simp add: SAVE_MODIFF_def MODIFF_def editor_with_def modified_buffer_def)
  have m1: "SAVE_MODIFF ?e1 < MODIFF ?e1"
    by (simp add: SAVE_MODIFF_def MODIFF_def editor_with_def modified_buffer_def)
  have l1: "BVAR_undo_list ?e1 = Fcons (Fcons (Fixnum 10) (Fixnum 13)) Qnil"
    by (simp add: BVAR_undo_list_def editor_with_def)
  have l0: "BVAR_undo_list ?e0 = Qnil"
    by (simp add: BVAR_undo_list_def editor_with_def modified_buffer_def)
  have p0: "BVAR_undo_list (record_point 10 ?e0) = Qnil"
    by (simp add: record_point_def allocate_pending_boundary_def first_undoable_change_def
          BVAR_undo_list_def MODIFF_def SAVE_MODIFF_def editor_with_def modified_buffer_def Let_def)
  have n0: "\<not> insertion_ending_at 10 (BVAR_undo_list ?e0)"
    by (simp add: l0 insertion_ending_at_def)
  from record_insert_coalesces[where e = ?e1 and x = 10 and b = 13 and rest = Qnil and n = 2]
       record_insert_coalesces[where e = ?e0]
       m0 m1 l1 l0 p0 n0
  show ?thesis by simp
qed

section \<open>The first change of an indirect buffer\<close>

text \<open>
  Claim C7 (\<^verbatim>\<open>record_first_change\<close> on an indirect buffer produces the record for the
  base buffer). The code computes the base buffer in \<^verbatim>\<open>base_buffer\<close> and then does not
  use it: with buffer 1, an indirect buffer over buffer 0, current, the record is pushed
  onto the log of buffer 1 and the log of buffer 0 stays as it was.
\<close>

theorem record_first_change_indirect:
  "base_buffer (buffers indirect_editor (current_buffer indirect_editor)) = Some 0 \<and>
   current_buffer indirect_editor = 1 \<and>
   undo_list (buffers (record_first_change indirect_editor) 0)
     = undo_list (buffers indirect_editor 0) \<and>
   undo_list (buffers (record_first_change indirect_editor) 1)
     = Fcons (Fcons Qt (Fvisited_file_modtime indirect_editor))
         (undo_list (buffers indirect_editor 1))"
  by (simp add: record_first_change_def BVAR_undo_list_def bset_undo_list_def
        indirect_editor_def editor_with_def modified_buffer_def Let_def)

section \<open>Deletions at position 0\<close>

text \<open>
  Claim C10. For a deletion that begins at position 0 in a buffer with logging enabled,
  the record pushed when point is at the end of the deleted text is the same as the
  record pushed when it is not: the string with the position 0. The sign that marks the
  first case cannot be seen at 0.
\<close>

theorem record_delete_at_zero:
  assumes "BVAR_undo_list e1 \<noteq> Qt" and "BVAR_undo_list e2 \<noteq> Qt"
    and "PT e1 = int (length string)" and "PT e2 \<noteq> int (length string)"
  shows "XCAR (BVAR_undo_list (record_delete 0 string m1 e1)) = Fcons (Lstring string) (Fixnum 0) \<and>
         XCAR (BVAR_undo_list (record_delete 0 string m2 e2)) = Fcons (Lstring string) (Fixnum 0) \<and>
         CONSP (BVAR_undo_list (record_delete 0 string m1 e1)) \<and>
         CONSP (BVAR_undo_list (record_delete 0 string m2 e2))"
  using assms by (simp add: record_delete_def Let_def)

theorem record_delete_at_zero_witness:
  "BVAR_undo_list ((editor_with modified_buffer)\<lparr>buffers := (\<lambda>n. modified_buffer\<lparr>pt := 3\<rparr>)\<rparr>) \<noteq> Qt \<and>
   BVAR_undo_list (editor_with modified_buffer) \<noteq> Qt \<and>
   PT ((editor_with modified_buffer)\<lparr>buffers := (\<lambda>n. modified_buffer\<lparr>pt := 3\<rparr>)\<rparr>) = int (length ''abc'') \<and>
   PT (editor_with modified_buffer) \<noteq> int (length ''abc'') \<and>
   XCAR (BVAR_undo_list (record_delete 0 ''abc'' True
           ((editor_with modified_buffer)\<lparr>buffers := (\<lambda>n. modified_buffer\<lparr>pt := 3\<rparr>)\<rparr>)))
     = Fcons (Lstring ''abc'') (Fixnum 0) \<and>
   XCAR (BVAR_undo_list (record_delete 0 ''abc'' True (editor_with modified_buffer)))
     = Fcons (Lstring ''abc'') (Fixnum 0)"
proof -
  let ?e1 = "(editor_with modified_buffer)\<lparr>buffers := (\<lambda>n. modified_buffer\<lparr>pt := 3\<rparr>)\<rparr>"
  let ?e2 = "editor_with modified_buffer"
  have h1: "BVAR_undo_list ?e1 \<noteq> Qt" and h2: "BVAR_undo_list ?e2 \<noteq> Qt"
    by (simp_all add: BVAR_undo_list_def editor_with_def modified_buffer_def)
  have h3: "PT ?e1 = int (length ''abc'')" and h4: "PT ?e2 \<noteq> int (length ''abc'')"
    by (simp_all add: PT_def editor_with_def modified_buffer_def)
  from record_delete_at_zero[OF h1 h2 h3 h4, of True True] h1 h2 h3 h4
  show ?thesis by simp
qed

end
